theory Spec2Isabelle
  imports Main "HOL-Library.Word" "HOL-Library.Sublist"
begin

section \<open>Strings of the source language\<close>

text \<open>
  A JavaScript string is a sequence of 16-bit code units.  String literals of the
  source are written with \<open>js\<close>, which maps every character of an Isabelle literal to
  its code unit.
\<close>

type_synonym jchar = "16 word"
type_synonym jstring = "jchar list"

definition js :: "string \<Rightarrow> jstring" where
  "js s = map of_char s"

definition nl :: jchar where
  "nl = 0x0A"

definition backtick :: jchar where
  "backtick = 0x60"

definition hash :: jchar where
  "hash = 0x23"

text \<open>The literal of three backticks that \<open>startsWith\<close> is asked about.\<close>

definition fence :: jstring where
  "fence = [backtick, backtick, backtick]"

text \<open>
  The code units that \<open>String.prototype.trim\<close> removes: the WhiteSpace and
  LineTerminator productions of ECMAScript (tab, LF, VT, FF, CR, space, NBSP, U+1680,
  U+2000 to U+200A, U+2028, U+2029, U+202F, U+205F, U+3000, U+FEFF).
\<close>

definition is_ws :: "jchar \<Rightarrow> bool" where
  "is_ws c = (c \<in> {0x09, 0x0A, 0x0B, 0x0C, 0x0D, 0x20, 0xA0, 0x1680, 0x2028, 0x2029,
                   0x202F, 0x205F, 0x3000, 0xFEFF}
              \<or> (0x2000 \<le> c \<and> c \<le> 0x200A))"

definition trim :: "jstring \<Rightarrow> jstring" where
  "trim s = rev (dropWhile is_ws (rev (dropWhile is_ws s)))"

text \<open>\<open>s.startsWith(p)\<close>.\<close>

definition starts_with :: "jstring \<Rightarrow> jstring \<Rightarrow> bool" where
  "starts_with p s = (take (length p) s = p)"

text \<open>
  \<open>s.split('\n')\<close>, scanning left to right with the piece read so far; the empty string
  splits into one empty piece, and a string ending in a newline has an empty last piece.
\<close>

fun split_from :: "jstring \<Rightarrow> jstring \<Rightarrow> jstring list" where
  "split_from cur [] = [cur]"
| "split_from cur (c # cs) =
     (if c = nl then cur # split_from [] cs else split_from (cur @ [c]) cs)"

definition split_nl :: "jstring \<Rightarrow> jstring list" where
  "split_nl s = split_from [] s"

section \<open>Cells and the scan of \<open>splitIntoNotebookCells\<close>\<close>

text \<open>
  A cell object carries \<open>cell_type\<close> and \<open>source\<close>; its other fields are constants of
  the cell type (\<open>metadata: {}\<close> for markdown; \<open>execution_count: null\<close>,
  \<open>metadata: {tags: []}\<close>, \<open>outputs: []\<close> for code) and are left out.
\<close>

datatype cell_kind = markdown | code

record cell =
  cell_type :: cell_kind
  source :: "jstring list"

text \<open>The local variables of \<open>splitIntoNotebookCells\<close>.\<close>

record scan =
  cells :: "cell list"
  currentCell :: jstring
  inCodeBlock :: bool
  codeBlockLang :: jstring

definition init :: scan where
  "init = \<lparr>cells = [], currentCell = [], inCodeBlock = False, codeBlockLang = []\<rparr>"

text \<open>\<open>currentCell.split('\n').map(line => line + '\n')\<close>.\<close>

definition mk_source :: "jstring \<Rightarrow> jstring list" where
  "mk_source buf = map (\<lambda>l. l @ [nl]) (split_nl buf)"

definition markdown_cell :: "jstring list \<Rightarrow> cell" where
  "markdown_cell src = \<lparr>cell_type = markdown, source = src\<rparr>"

definition code_cell :: "jstring list \<Rightarrow> cell" where
  "code_cell src = \<lparr>cell_type = code, source = src\<rparr>"

text \<open>
  The block \<open>if (currentCell.trim()) { cells.push({markdown ...}); currentCell = ''; }\<close>,
  which the source has at a fence opening and at a header; a string is truthy when it is
  not empty.  When the trimmed buffer is empty the buffer is left as it is.  The same
  test and push stand after the loop, without the assignment to \<open>currentCell\<close>, which
  is not read again there.
\<close>

definition flush :: "scan \<Rightarrow> scan" where
  "flush s = (if trim (currentCell s) \<noteq> []
              then s\<lparr>cells := cells s @ [markdown_cell (mk_source (currentCell s))],
                     currentCell := []\<rparr>
              else s)"

text \<open>The cell pushed when a fence closes.\<close>

definition close_cell :: "jstring \<Rightarrow> jstring \<Rightarrow> cell" where
  "close_cell lang buf =
     (if lang = js ''python'' then code_cell (mk_source buf)
      else markdown_cell ([fence @ lang @ [nl]] @ mk_source buf @ [fence @ [nl]]))"

text \<open>
  One iteration of the \<open>for\<close> loop, on the line \<open>lines[i]\<close>: the fence branch and the
  header branch end with \<open>continue\<close>, the last branch is the rest of the loop body.
\<close>

definition step :: "scan \<Rightarrow> jstring \<Rightarrow> scan" where
  "step s line =
     (if starts_with fence line then
        (if \<not> inCodeBlock s
         then (flush s)\<lparr>codeBlockLang := trim (drop 3 line), inCodeBlock := True\<rparr>
         else s\<lparr>inCodeBlock := False,
                cells := cells s @ [close_cell (codeBlockLang s) (currentCell s)],
                currentCell := []\<rparr>)
      else if \<not> inCodeBlock s \<and> starts_with [hash] line then
        (flush s)\<lparr>currentCell := line @ [nl]\<rparr>
      else s\<lparr>currentCell := currentCell s @ line @ [nl]\<rparr>)"

text \<open>
  The whole function: the loop over \<open>markdown.split('\n')\<close>, then the last
  \<open>if (currentCell.trim())\<close> push, then \<open>return cells\<close>.
\<close>

definition run :: "scan \<Rightarrow> jstring list \<Rightarrow> scan" where
  "run s ls = foldl step s ls"

definition splitIntoNotebookCells :: "jstring \<Rightarrow> cell list" where
  "splitIntoNotebookCells md = cells (flush (run init (split_nl md)))"

section \<open>Notions used to state the properties\<close>

text \<open>Every line of a list with the newline the loop appends to it.\<close>

definition with_nl :: "jstring list \<Rightarrow> jstring list" where
  "with_nl ls = map (\<lambda>l. l @ [nl]) ls"

text \<open>The buffer obtained from the empty one by appending the lines \<open>ls\<close> in turn.\<close>

definition buf_of :: "jstring list \<Rightarrow> jstring" where
  "buf_of ls = concat (with_nl ls)"

text \<open>A string made of whitespace only (the empty string included).\<close>

definition blank :: "jstring \<Rightarrow> bool" where
  "blank s = list_all is_ws s"

text \<open>
  The lines held in the buffer: its pieces between newlines, without the empty piece
  that follows the last newline.
\<close>

definition pending_lines :: "scan \<Rightarrow> jstring list" where
  "pending_lines s = butlast (split_nl (currentCell s))"

text \<open>
  The content lines of a cell that come from the buffer lines: all but the last
  element, and in a demoted fence (a markdown cell whose first line begins with three
  backticks) all but the rebuilt opening line and the last two elements.
\<close>

definition cell_lines :: "cell \<Rightarrow> jstring list" where
  "cell_lines c =
     (case source c of
        [] \<Rightarrow> []
      | first # others \<Rightarrow>
          if cell_type c = markdown \<and> starts_with fence first
          then butlast (butlast others)
          else butlast (first # others))"

text \<open>
  The source lines that reach the output, stated on lines alone; \<open>inside\<close> tells
  whether a fence is open and \<open>pend\<close> are the lines not yet settled.  A line that begins with three backticks is consumed.  Every other line
  is retained, in source order, except the pending lines that are all whitespace-only
  when a header line is met outside a fence or when the input ends.
\<close>

fun retained_lines :: "bool \<Rightarrow> jstring list \<Rightarrow> jstring list \<Rightarrow> jstring list" where
  "retained_lines inside pend [] = (if list_all blank pend then [] else pend)"
| "retained_lines inside pend (l # ls) =
     (if starts_with fence l then
        (if inside then pend @ retained_lines False [] ls
         else if list_all blank pend then retained_lines True pend ls
         else pend @ retained_lines True [] ls)
      else if \<not> inside \<and> starts_with [hash] l then
        (if list_all blank pend then [] else pend) @ retained_lines False [l] ls
      else retained_lines inside (pend @ [l]) ls)"

text \<open>All content lines of a cell sequence, in output order.\<close>

definition content :: "cell list \<Rightarrow> jstring list" where
  "content cs = concat (map source cs)"

section \<open>Single lines\<close>

lemma is_ws_nl [simp]: "is_ws nl"
  by (simp add: is_ws_def nl_def)

lemma not_ws_backtick [simp]: "\<not> is_ws backtick"
  by (simp add: is_ws_def backtick_def)

lemma not_ws_hash [simp]: "\<not> is_ws hash"
  by (simp add: is_ws_def hash_def)

lemma hash_not_backtick [simp]: "hash \<noteq> backtick"
  by (simp add: hash_def backtick_def)

lemma starts_with_fence_Cons:
  "starts_with fence (c # rest) \<Longrightarrow> c = backtick"
  by (simp add: starts_with_def fence_def)

text \<open>
  C9.  Only a line whose first three code units are backticks is a fence delimiter.  A
  line that begins with a whitespace code unit, whatever follows it (three backticks
  included), is appended to the buffer with its newline: the cells, the fence flag and
  the recorded language stay as they were, so the line neither opens nor closes a fence.
\<close>

theorem C9_indented_fence_is_content:
  "is_ws c \<Longrightarrow> step s (c # rest) = s\<lparr>currentCell := currentCell s @ (c # rest) @ [nl]\<rparr>"
proof -
  assume ws: "is_ws c"
  have nf: "\<not> starts_with fence (c # rest)"
    using ws starts_with_fence_Cons not_ws_backtick by blast
  have nh: "\<not> starts_with [hash] (c # rest)"
    using ws not_ws_hash by (auto simp add: starts_with_def)
  show ?thesis
    using nf nh by (simp add: step_def)
qed

theorem C9_indented_fence_witness:
  "is_ws 0x20 \<and> step (init\<lparr>inCodeBlock := True\<rparr>) (0x20 # fence)
     = init\<lparr>inCodeBlock := True, currentCell := 0x20 # fence @ [nl]\<rparr>"
  using C9_indented_fence_is_content [of "0x20" "init\<lparr>inCodeBlock := True\<rparr>" fence]
  by (simp add: is_ws_def init_def)

text \<open>
  C10.  Outside a fence, a line whose first code unit is \<open>#\<close> is a header boundary
  whatever follows the \<open>#\<close>: the pending buffer is flushed (pushed as a markdown cell
  when its trimmed text is not empty) and the new buffer is this line with its newline.
\<close>

theorem C10_hash_line_is_header:
  "\<not> inCodeBlock s \<Longrightarrow>
   step s (hash # rest) = (flush s)\<lparr>currentCell := (hash # rest) @ [nl]\<rparr>"
proof -
  assume out: "\<not> inCodeBlock s"
  have nf: "\<not> starts_with fence (hash # rest)"
    using starts_with_fence_Cons hash_not_backtick by blast
  have h: "starts_with [hash] (hash # rest)"
    by (simp add: starts_with_def)
  show ?thesis
    using out nf h by (simp add: step_def)
qed

theorem C10_hash_line_witness:
  "\<not> inCodeBlock (init\<lparr>currentCell := js ''x\<newline>''\<rparr>) \<and>
   step (init\<lparr>currentCell := js ''x\<newline>''\<rparr>) (js ''#!/usr/bin/env'')
     = init\<lparr>cells := [markdown_cell [js ''x\<newline>'', js ''\<newline>'']],
            currentCell := js ''#!/usr/bin/env\<newline>''\<rparr>"
  using C10_hash_line_is_header [of "init\<lparr>currentCell := js ''x\<newline>''\<rparr>" "js ''!/usr/bin/env''"]
  by (simp add: init_def js_def hash_def flush_def trim_def is_ws_def mk_source_def
      split_nl_def nl_def)

section \<open>Buffers, splitting and trimming\<close>

subsection \<open>split and buffers\<close>

lemma split_from_line:
  "nl \<notin> set l \<Longrightarrow> split_from cur (l @ nl # rest) = (cur @ l) # split_from [] rest"
  by (induction l arbitrary: cur) auto

lemma split_from_nl_free:
  "nl \<notin> set cur \<Longrightarrow> \<forall>l\<in>set (split_from cur s). nl \<notin> set l"
proof (induction s arbitrary: cur)
  case Nil
  then show ?case by simp
next
  case (Cons c cs)
  show ?case
  proof (cases "c = nl")
    case True
    then show ?thesis using Cons.prems Cons.IH [of "[]"] by simp
  next
    case False
    then show ?thesis using Cons.prems Cons.IH [of "cur @ [c]"] by simp
  qed
qed

lemma split_nl_nl_free: "l \<in> set (split_nl s) \<Longrightarrow> nl \<notin> set l"
  using split_from_nl_free [of "[]" s] by (simp add: split_nl_def)

lemma buf_of_Nil [simp]: "buf_of [] = []"
  by (simp add: buf_of_def with_nl_def)

lemma buf_of_Cons [simp]: "buf_of (l # ls) = l @ nl # buf_of ls"
  by (simp add: buf_of_def with_nl_def)

lemma buf_of_append [simp]: "buf_of (xs @ ys) = buf_of xs @ buf_of ys"
  by (simp add: buf_of_def with_nl_def)

lemma split_nl_buf_of:
  "\<forall>l\<in>set ls. nl \<notin> set l \<Longrightarrow> split_nl (buf_of ls) = ls @ [[]]"
  by (induction ls) (simp_all add: split_nl_def split_from_line)

lemma mk_source_buf_of:
  "\<forall>l\<in>set ls. nl \<notin> set l \<Longrightarrow> mk_source (buf_of ls) = with_nl ls @ [[nl]]"
  by (simp add: mk_source_def split_nl_buf_of with_nl_def)

lemma mk_source_line:
  "nl \<notin> set h \<Longrightarrow> \<exists>tl. mk_source (h @ nl # x) = (h @ [nl]) # tl"
  by (simp add: mk_source_def split_nl_def split_from_line)

subsection \<open>trim\<close>

lemma dropWhile_all: "(\<forall>x\<in>set (dropWhile P xs). P x) = (\<forall>x\<in>set xs. P x)"
proof
  assume a: "\<forall>x\<in>set (dropWhile P xs). P x"
  have "dropWhile P xs = []"
  proof (rule ccontr)
    assume ne: "dropWhile P xs \<noteq> []"
    then have "\<not> P (hd (dropWhile P xs))" by (rule hd_dropWhile)
    moreover have "hd (dropWhile P xs) \<in> set (dropWhile P xs)" using ne by simp
    ultimately show False using a by blast
  qed
  then show "\<forall>x\<in>set xs. P x" by (simp add: dropWhile_eq_Nil_conv)
next
  assume "\<forall>x\<in>set xs. P x"
  then show "\<forall>x\<in>set (dropWhile P xs). P x"
    using set_dropWhileD by fastforce
qed

lemma trim_empty_iff: "trim s = [] \<longleftrightarrow> blank s"
proof -
  have "trim s = [] \<longleftrightarrow> (\<forall>x\<in>set (rev (dropWhile is_ws s)). is_ws x)"
    by (simp add: trim_def dropWhile_eq_Nil_conv)
  also have "\<dots> \<longleftrightarrow> (\<forall>x\<in>set s. is_ws x)"
    using dropWhile_all [of is_ws s] by simp
  finally show ?thesis by (simp add: blank_def list_all_iff)
qed

lemma blank_append [simp]: "blank (a @ b) \<longleftrightarrow> blank a \<and> blank b"
  by (simp add: blank_def)

lemma blank_Nil [simp]: "blank []"
  by (simp add: blank_def)

lemma blank_Cons [simp]: "blank (c # s) \<longleftrightarrow> is_ws c \<and> blank s"
  by (simp add: blank_def)

lemma blank_buf_of: "blank (buf_of ls) \<longleftrightarrow> (\<forall>l\<in>set ls. blank l)"
  by (induction ls) auto

subsection \<open>lines with their newline\<close>

lemma starts_with_fence_nl [simp]: "starts_with fence (l @ [nl]) = starts_with fence l"
proof -
  have nb: "nl \<noteq> backtick" by (simp add: nl_def backtick_def)
  show ?thesis
  proof (cases l)
    case Nil
    then show ?thesis using nb by (simp add: starts_with_def fence_def)
  next
    case l: (Cons a l1)
    show ?thesis
    proof (cases l1)
      case Nil
      then show ?thesis using l nb by (simp add: starts_with_def fence_def)
    next
      case (Cons b l2)
      then show ?thesis using l nb
        by (cases l2) (simp_all add: starts_with_def fence_def)
    qed
  qed
qed

section \<open>The scan, line by line\<close>

subsection \<open>The four branches of an iteration\<close>

lemma step_open:
  "starts_with fence line \<Longrightarrow> \<not> inCodeBlock s \<Longrightarrow>
   step s line = (flush s)\<lparr>codeBlockLang := trim (drop 3 line), inCodeBlock := True\<rparr>"
  by (simp add: step_def)

lemma step_close:
  "starts_with fence line \<Longrightarrow> inCodeBlock s \<Longrightarrow>
   step s line = s\<lparr>inCodeBlock := False,
                    cells := cells s @ [close_cell (codeBlockLang s) (currentCell s)],
                    currentCell := []\<rparr>"
  by (simp add: step_def)

lemma step_header:
  "\<not> starts_with fence line \<Longrightarrow> \<not> inCodeBlock s \<Longrightarrow> starts_with [hash] line \<Longrightarrow>
   step s line = (flush s)\<lparr>currentCell := line @ [nl]\<rparr>"
  by (simp add: step_def)

lemma step_plain:
  "\<not> starts_with fence line \<Longrightarrow> inCodeBlock s \<or> \<not> starts_with [hash] line \<Longrightarrow>
   step s line = s\<lparr>currentCell := currentCell s @ line @ [nl]\<rparr>"
  by (auto simp add: step_def)

lemma step_cases:
  obtains (fence_open) "starts_with fence line" and "\<not> inCodeBlock s"
  | (fence_close) "starts_with fence line" and "inCodeBlock s"
  | (header_line) "\<not> starts_with fence line" and "\<not> inCodeBlock s" and "starts_with [hash] line"
  | (plain_line) "\<not> starts_with fence line" and "inCodeBlock s \<or> \<not> starts_with [hash] line"
  by blast

lemma flush_buf_of:
  assumes "currentCell s = buf_of p" and "\<forall>l\<in>set p. nl \<notin> set l"
  shows "flush s = (if \<forall>l\<in>set p. blank l then s
                    else s\<lparr>cells := cells s @ [markdown_cell (with_nl p @ [[nl]])],
                           currentCell := []\<rparr>)"
  using assms by (simp add: flush_def trim_empty_iff blank_buf_of mk_source_buf_of)

lemma flush_fields [simp]:
  "inCodeBlock (flush s) = inCodeBlock s" "codeBlockLang (flush s) = codeBlockLang s"
  by (simp_all add: flush_def)

lemma run_Nil [simp]: "run s [] = s"
  by (simp add: run_def)

lemma run_Cons [simp]: "run s (l # ls) = run (step s l) ls"
  by (simp add: run_def)

lemma run_append: "run s (xs @ ys) = run (run s xs) ys"
  by (simp add: run_def)

subsection \<open>Cells are only appended\<close>

lemma cells_flush: "\<exists>post. cells (flush s) = cells s @ post"
  by (simp add: flush_def)

lemma cells_step: "\<exists>post. cells (step s line) = cells s @ post"
  using cells_flush [of s] by (cases rule: step_cases [of line s])
    (auto simp add: step_open step_close step_header step_plain)

lemma cells_run: "\<exists>post. cells (run s ls) = cells s @ post"
proof (induction ls arbitrary: s)
  case Nil
  show ?case by simp
next
  case (Cons l ls)
  obtain a where a: "cells (step s l) = cells s @ a" using cells_step by blast
  obtain b where b: "cells (run (step s l) ls) = cells (step s l) @ b"
    using Cons.IH by blast
  show ?case using a b by simp
qed

lemma cells_finish: "\<exists>post. cells (flush (run s ls)) = cells s @ post"
proof -
  obtain a where a: "cells (run s ls) = cells s @ a" using cells_run by blast
  obtain b where b: "cells (flush (run s ls)) = cells (run s ls) @ b"
    using cells_flush by blast
  show ?thesis using a b by simp
qed

subsection \<open>Lines inside a fence\<close>

lemma run_body:
  "inCodeBlock s \<Longrightarrow> \<forall>l\<in>set body. \<not> starts_with fence l \<Longrightarrow>
   run s body = s\<lparr>currentCell := currentCell s @ buf_of body\<rparr>"
proof (induction body arbitrary: s)
  case Nil
  show ?case by simp
next
  case (Cons l ls)
  have st: "step s l = s\<lparr>currentCell := currentCell s @ l @ [nl]\<rparr>"
    using Cons.prems by (simp add: step_plain)
  have "run (step s l) ls = (step s l)\<lparr>currentCell := currentCell (step s l) @ buf_of ls\<rparr>"
    using Cons.prems by (intro Cons.IH) (simp_all add: st)
  then show ?case by (simp add: st)
qed

subsection \<open>The buffer is a sequence of whole lines\<close>

lemma step_pending:
  assumes cur: "currentCell s = buf_of p" and nlp: "\<forall>l\<in>set p. nl \<notin> set l"
    and nll: "nl \<notin> set line"
  shows "\<exists>q. currentCell (step s line) = buf_of q \<and> (\<forall>l\<in>set q. nl \<notin> set l)"
proof (cases rule: step_cases [of line s])
  case fence_open
  have "currentCell (step s line) = buf_of (if \<forall>l\<in>set p. blank l then p else [])"
    using fence_open cur nlp by (simp add: step_open flush_buf_of)
  then show ?thesis using nlp by (intro exI [of _ "if \<forall>l\<in>set p. blank l then p else []"]) simp
next
  case fence_close
  then have "currentCell (step s line) = buf_of []" by (simp add: step_close)
  then show ?thesis by (intro exI [of _ "[]"]) simp
next
  case header_line
  then have "currentCell (step s line) = buf_of [line]" by (simp add: step_header)
  then show ?thesis using nll by (intro exI [of _ "[line]"]) simp
next
  case plain_line
  then have "currentCell (step s line) = buf_of (p @ [line])"
    using cur by (simp add: step_plain)
  then show ?thesis using nlp nll by (intro exI [of _ "p @ [line]"]) simp
qed

lemma run_pending:
  assumes "currentCell s = buf_of p" and "\<forall>l\<in>set p. nl \<notin> set l"
    and "\<forall>l\<in>set ls. nl \<notin> set l"
  shows "\<exists>q. currentCell (run s ls) = buf_of q \<and> (\<forall>l\<in>set q. nl \<notin> set l)"
  using assms
proof (induction ls arbitrary: s p)
  case Nil
  then show ?case by auto
next
  case (Cons l ls)
  obtain q where q: "currentCell (step s l) = buf_of q" "\<forall>l\<in>set q. nl \<notin> set l"
    using step_pending [of s p l] Cons.prems by auto
  show ?case using Cons.IH [OF q] Cons.prems(3) by simp
qed

lemma init_pending: "currentCell init = buf_of []"
  by (simp add: init_def)

section \<open>Whole documents\<close>

lemmas eval_defs = js_def nl_def backtick_def hash_def fence_def is_ws_def trim_def
  starts_with_def split_nl_def init_def mk_source_def markdown_cell_def code_cell_def
  flush_def close_cell_def step_def run_def splitIntoNotebookCells_def blank_def

subsection \<open>The examples of the specification, as the code computes them\<close>

text \<open>
  C1.  On the document of Example 2 the function returns three cells of the types
  markdown, code, markdown, in this order.  Their contents are not the three one-line
  lists of the example: every push splits a buffer that ends with a newline, so each
  content has one more \<open>"\n"\<close> element, and the last buffer also holds the empty piece
  that follows the final newline of the document.
\<close>

theorem C1_example_output:
  "splitIntoNotebookCells (js ''Intro\<newline>```python\<newline>print(1)\<newline>```\<newline>End\<newline>'') =
     [markdown_cell [js ''Intro\<newline>'', js ''\<newline>''],
      code_cell [js ''print(1)\<newline>'', js ''\<newline>''],
      markdown_cell [js ''End\<newline>'', js ''\<newline>'', js ''\<newline>'']]"
  by (simp add: eval_defs)

text \<open>
  C5.  On the document of Example 3 the function returns one markdown cell that holds
  the rebuilt opening line, the body line, an additional \<open>"\n"\<close> element that the
  split of the newline-terminated buffer produces, and the closing line.
\<close>

theorem C5_example_output:
  "splitIntoNotebookCells (js ''```bash\<newline>echo hi\<newline>```\<newline>'') =
     [markdown_cell [js ''```bash\<newline>'', js ''echo hi\<newline>'', js ''\<newline>'', js ''```\<newline>'']]"
  by (simp add: eval_defs)

lemma cell_type_close_cell:
  "cell_type (close_cell lang buf) = (if lang = js ''python'' then code else markdown)"
  by (simp add: close_cell_def code_cell_def markdown_cell_def)

text \<open>
  C2.  Take a document whose lines are \<open>ps\<close>, an opening fence line met outside a fence,
  body lines none of which begins with three backticks, a closing fence line, and
  \<open>rest\<close>.  The scan pushes exactly one cell for the block, right after the cells
  pushed up to the opening line (the pending buffer flushed there included): the cell
  built by \<open>close_cell\<close> from the tag \<open>trim (drop 3 open_line)\<close>.  Its type is \<open>code\<close>
  if and only if that tag equals the string \<open>python\<close>, compared code unit by code
  unit, and \<open>markdown\<close> for every other tag, the empty one included.
\<close>

theorem C2_language_gating:
  assumes doc: "split_nl md = ps @ [open_line] @ body @ [close_line] @ rest"
    and out: "\<not> inCodeBlock (run init ps)"
    and op: "starts_with fence open_line"
    and cl: "starts_with fence close_line"
    and bd: "\<forall>l\<in>set body. \<not> starts_with fence l"
  shows "\<exists>c post.
    splitIntoNotebookCells md = cells (flush (run init ps)) @ c # post \<and>
    c = close_cell (trim (drop 3 open_line)) (currentCell (flush (run init ps)) @ buf_of body) \<and>
    cell_type c = (if trim (drop 3 open_line) = js ''python'' then code else markdown)"
proof -
  define s0 where "s0 = run init ps"
  define s1 where "s1 = step s0 open_line"
  define s2 where "s2 = run s1 body"
  define s3 where "s3 = step s2 close_line"
  define c where "c = close_cell (trim (drop 3 open_line)) (currentCell (flush s0) @ buf_of body)"
  have s1: "s1 = (flush s0)\<lparr>codeBlockLang := trim (drop 3 open_line), inCodeBlock := True\<rparr>"
    using op out by (simp add: s1_def s0_def step_open)
  have s2: "s2 = s1\<lparr>currentCell := currentCell s1 @ buf_of body\<rparr>"
    unfolding s2_def using bd by (intro run_body) (simp_all add: s1)
  have s3: "cells s3 = cells (flush s0) @ [c]"
    using cl by (simp add: s3_def step_close s2 s1 c_def)
  have "run init (split_nl md) = run s3 rest"
    by (simp add: doc run_append s0_def s1_def s2_def s3_def)
  then have "splitIntoNotebookCells md = cells (flush (run s3 rest))"
    by (simp add: splitIntoNotebookCells_def)
  moreover obtain post where "cells (flush (run s3 rest)) = cells s3 @ post"
    using cells_finish by blast
  ultimately have "splitIntoNotebookCells md = cells (flush s0) @ c # post"
    by (simp add: s3)
  then show ?thesis
    unfolding s0_def [symmetric] c_def [symmetric]
    by (auto simp add: c_def cell_type_close_cell)
qed

theorem C2_language_gating_witness:
  "\<exists>c post. splitIntoNotebookCells (js ''```python\<newline>print(1)\<newline>```\<newline>'') = c # post \<and>
     cell_type c = code"
  using C2_language_gating [of "js ''```python\<newline>print(1)\<newline>```\<newline>''" "[]" "js ''```python''"
      "[js ''print(1)'']" "js ''```''" "[[]]"]
  by (simp add: eval_defs)

lemma blank_not_fence: "blank l \<Longrightarrow> \<not> starts_with fence l"
  by (cases l) (auto simp add: starts_with_def fence_def)

lemma header_kept:
  assumes "\<not> inCodeBlock s" and "currentCell s = h @ nl # x" and "nl \<notin> set h"
    and "\<not> blank h"
  shows "\<exists>tl post. cells (flush (run s rest)) = cells s @ markdown_cell ((h @ [nl]) # tl) # post"
  using assms
proof (induction rest arbitrary: s x)
  case Nil
  obtain tl where tl: "mk_source (h @ nl # x) = (h @ [nl]) # tl"
    using mk_source_line [OF Nil(3)] by blast
  have "trim (currentCell s) \<noteq> []"
    using Nil by (simp add: trim_empty_iff)
  then have "cells (flush s) = cells s @ [markdown_cell ((h @ [nl]) # tl)]"
    using Nil tl by (simp add: flush_def)
  then have "cells (flush (run s [])) = cells s @ markdown_cell ((h @ [nl]) # tl) # []"
    by simp
  then show ?case by blast
next
  case (Cons line rest)
  obtain tl where tl: "mk_source (h @ nl # x) = (h @ [nl]) # tl"
    using mk_source_line [OF Cons.prems(3)] by blast
  have ne: "trim (currentCell s) \<noteq> []"
    using Cons.prems by (simp add: trim_empty_iff)
  have fl: "cells (flush s) = cells s @ [markdown_cell ((h @ [nl]) # tl)]"
    using Cons.prems tl ne by (simp add: flush_def)
  show ?case
  proof (cases rule: step_cases [of line s])
    case fence_open
    then have c1: "cells (step s line) = cells s @ [markdown_cell ((h @ [nl]) # tl)]"
      using fl by (simp add: step_open)
    obtain post where "cells (flush (run (step s line) rest)) = cells (step s line) @ post"
      using cells_finish by blast
    then have "cells (flush (run s (line # rest))) =
        cells s @ markdown_cell ((h @ [nl]) # tl) # post"
      using c1 by simp
    then show ?thesis by blast
  next
    case fence_close
    then show ?thesis using Cons.prems by simp
  next
    case header_line
    then have c1: "cells (step s line) = cells s @ [markdown_cell ((h @ [nl]) # tl)]"
      using fl by (simp add: step_header)
    obtain post where "cells (flush (run (step s line) rest)) = cells (step s line) @ post"
      using cells_finish by blast
    then have "cells (flush (run s (line # rest))) =
        cells s @ markdown_cell ((h @ [nl]) # tl) # post"
      using c1 by simp
    then show ?thesis by blast
  next
    case plain_line
    then have st: "step s line = s\<lparr>currentCell := currentCell s @ line @ [nl]\<rparr>"
      by (simp add: step_plain)
    have "\<exists>tl post. cells (flush (run (step s line) rest)) =
        cells (step s line) @ markdown_cell ((h @ [nl]) # tl) # post"
      using Cons.prems by (intro Cons.IH [of _ "x @ line @ [nl]"]) (simp_all add: st)
    then show ?thesis by (simp add: st)
  qed
qed

text \<open>
  C6.  At a header line \<open>h\<close> met outside a fence the pending buffer is flushed first (a
  markdown cell when it is not blank) and the buffer becomes \<open>h\<close> with its newline.  In
  the result, the cells pushed up to and including that flush are followed by a
  markdown cell whose first content line is the header line: the header is not part
  of the cell before it and it is not lost.
\<close>

theorem C6_header_seeds_next_cell:
  assumes doc: "split_nl md = ps @ [h] @ rest"
    and out: "\<not> inCodeBlock (run init ps)"
    and hd: "starts_with [hash] h"
  shows "run init (ps @ [h]) = (flush (run init ps))\<lparr>currentCell := h @ [nl]\<rparr> \<and>
    (\<exists>tl post. splitIntoNotebookCells md =
       cells (flush (run init ps)) @ markdown_cell ((h @ [nl]) # tl) # post)"
proof -
  define s1 where "s1 = step (run init ps) h"
  obtain r where h: "h = hash # r"
    using hd by (cases h) (simp_all add: starts_with_def)
  have nf: "\<not> starts_with fence h"
    using h starts_with_fence_Cons hash_not_backtick by blast
  have s1: "s1 = (flush (run init ps))\<lparr>currentCell := h @ [nl]\<rparr>"
    using nf out hd by (simp add: s1_def step_header)
  have free: "nl \<notin> set h"
    using split_nl_nl_free [of h md] by (simp add: doc)
  have nb: "\<not> blank h"
    by (simp add: h)
  have "\<exists>tl post. cells (flush (run s1 rest)) = cells s1 @ markdown_cell ((h @ [nl]) # tl) # post"
    using out free nb by (intro header_kept [of _ _ "[]"]) (simp_all add: s1)
  moreover have "run init (split_nl md) = run s1 rest"
    by (simp add: doc run_append s1_def)
  ultimately have "\<exists>tl post. splitIntoNotebookCells md =
       cells (flush (run init ps)) @ markdown_cell ((h @ [nl]) # tl) # post"
    by (simp add: splitIntoNotebookCells_def s1)
  moreover have "run init (ps @ [h]) = (flush (run init ps))\<lparr>currentCell := h @ [nl]\<rparr>"
    using s1 by (simp add: run_append s1_def)
  ultimately show ?thesis by blast
qed

theorem C6_header_witness:
  "\<exists>tl post. splitIntoNotebookCells (js ''Intro\<newline># A\<newline>body'') =
     markdown_cell [js ''Intro\<newline>'', js ''\<newline>''] # markdown_cell (js ''# A\<newline>'' # tl) # post"
  using C6_header_seeds_next_cell [of "js ''Intro\<newline># A\<newline>body''" "[js ''Intro'']" "js ''# A''"
      "[js ''body'']"]
  by (simp add: eval_defs)

subsection \<open>What an iteration can push\<close>

lemma step_cells_cases:
  assumes cur: "currentCell s = buf_of p" and nlp: "\<forall>l\<in>set p. nl \<notin> set l"
    and c: "c \<in> set (cells (step s line))"
  shows "c \<in> set (cells s)
       \<or> (\<not> list_all blank p \<and> c = markdown_cell (with_nl p @ [[nl]]))
       \<or> c = close_cell (codeBlockLang s) (buf_of p)"
proof (cases rule: step_cases [of line s])
  case fence_open
  then show ?thesis using c flush_buf_of [OF cur nlp]
    by (auto simp add: step_open list_all_iff split: if_splits)
next
  case fence_close
  then show ?thesis using c cur by (auto simp add: step_close)
next
  case header_line
  then show ?thesis using c flush_buf_of [OF cur nlp]
    by (auto simp add: step_header list_all_iff split: if_splits)
next
  case plain_line
  then show ?thesis using c by (simp add: step_plain)
qed

lemma flush_cells_cases:
  assumes cur: "currentCell s = buf_of p" and nlp: "\<forall>l\<in>set p. nl \<notin> set l"
    and c: "c \<in> set (cells (flush s))"
  shows "c \<in> set (cells s)
       \<or> (\<not> list_all blank p \<and> c = markdown_cell (with_nl p @ [[nl]]))"
  using c flush_buf_of [OF cur nlp] by (auto simp add: list_all_iff split: if_splits)

lemma cells_invariant:
  assumes free: "\<forall>l\<in>set ls. nl \<notin> set l"
    and cur: "currentCell s = buf_of p" and nlp: "\<forall>l\<in>set p. nl \<notin> set l"
    and old: "\<forall>c\<in>set (cells s). Q c"
    and md: "\<And>p. \<forall>l\<in>set p. nl \<notin> set l \<Longrightarrow> \<not> list_all blank p \<Longrightarrow>
               Q (markdown_cell (with_nl p @ [[nl]]))"
    and cl: "\<And>p lang. \<forall>l\<in>set p. nl \<notin> set l \<Longrightarrow> Q (close_cell lang (buf_of p))"
  shows "\<forall>c\<in>set (cells (flush (run s ls))). Q c"
  using free cur nlp old
proof (induction ls arbitrary: s p)
  case Nil
  show ?case
  proof
    fix c assume "c \<in> set (cells (flush (run s [])))"
    then have "c \<in> set (cells (flush s))" by simp
    from flush_cells_cases [OF Nil(2) Nil(3) this] show "Q c"
      using Nil md by blast
  qed
next
  case (Cons l ls)
  obtain q where q: "currentCell (step s l) = buf_of q" "\<forall>l\<in>set q. nl \<notin> set l"
    using step_pending [OF Cons.prems(2) Cons.prems(3), of l] Cons.prems(1) by auto
  have new: "\<forall>c\<in>set (cells (step s l)). Q c"
  proof
    fix c assume "c \<in> set (cells (step s l))"
    from step_cells_cases [OF Cons.prems(2) Cons.prems(3) this] show "Q c"
      using Cons.prems md cl by blast
  qed
  have "\<forall>c\<in>set (cells (flush (run (step s l) ls))). Q c"
    using Cons.prems(1) by (intro Cons.IH [OF _ q new]) simp
  then show ?case by simp
qed

lemma output_invariant:
  assumes md: "\<And>p. \<forall>l\<in>set p. nl \<notin> set l \<Longrightarrow> \<not> list_all blank p \<Longrightarrow>
               Q (markdown_cell (with_nl p @ [[nl]]))"
    and cl: "\<And>p lang. \<forall>l\<in>set p. nl \<notin> set l \<Longrightarrow> Q (close_cell lang (buf_of p))"
    and c: "c \<in> set (splitIntoNotebookCells doc)"
  shows "Q c"
proof -
  have "\<forall>l\<in>set (split_nl doc). nl \<notin> set l"
    using split_nl_nl_free by blast
  then have "\<forall>c\<in>set (cells (flush (run init (split_nl doc)))). Q c"
    using md cl by (intro cells_invariant [of _ _ "[]"]) (simp_all add: init_def)
  then show ?thesis using c by (simp add: splitIntoNotebookCells_def)
qed

lemma concat_with_nl: "concat (with_nl p) = buf_of p"
  by (simp add: buf_of_def)

lemma blank_buf_of_all: "blank (buf_of p) = list_all blank p"
  by (simp add: blank_buf_of list_all_iff)

text \<open>
  C3, as stated, fails: a python fence with an empty body, in the middle of a document,
  yields a code cell whose whole content is one newline.
\<close>

theorem C3_blank_code_cell:
  "splitIntoNotebookCells (js ''```python\<newline>```\<newline>End\<newline>'') =
     [code_cell [js ''\<newline>''],
      markdown_cell [js ''End\<newline>'', js ''\<newline>'', js ''\<newline>'']]
   \<and> blank (concat (source (code_cell [js ''\<newline>''])))"
  by (simp add: eval_defs)

text \<open>
  C3, as amended.  No markdown cell of the result has whitespace-only content: a
  buffer is pushed as markdown only when its trimmed text is not empty, and a demoted
  fence carries its fence lines.  Code cells are not covered: they are pushed at every
  closing of a python fence without a look at the buffer.
\<close>

theorem C3_markdown_cells_not_blank:
  "c \<in> set (splitIntoNotebookCells md) \<Longrightarrow> cell_type c = markdown \<Longrightarrow>
   \<not> blank (concat (source c))"
proof -
  assume c: "c \<in> set (splitIntoNotebookCells md)"
  have "cell_type c = markdown \<longrightarrow> \<not> blank (concat (source c))"
  proof (rule output_invariant [OF _ _ c])
    fix p :: "jstring list"
    assume "\<not> list_all blank p"
    then show "cell_type (markdown_cell (with_nl p @ [[nl]])) = markdown \<longrightarrow>
        \<not> blank (concat (source (markdown_cell (with_nl p @ [[nl]]))))"
      by (simp add: markdown_cell_def concat_with_nl blank_buf_of_all)
  next
    fix p :: "jstring list" and lang
    show "cell_type (close_cell lang (buf_of p)) = markdown \<longrightarrow>
        \<not> blank (concat (source (close_cell lang (buf_of p))))"
      by (simp add: close_cell_def markdown_cell_def code_cell_def fence_def)
  qed
  then show "cell_type c = markdown \<Longrightarrow> \<not> blank (concat (source c))" by simp
qed

theorem C3_markdown_cells_witness:
  "markdown_cell [js ''# A\<newline>'', js ''\<newline>''] \<in> set (splitIntoNotebookCells (js ''# A'')) \<and>
   cell_type (markdown_cell [js ''# A\<newline>'', js ''\<newline>'']) = markdown \<and>
   \<not> blank (concat (source (markdown_cell [js ''# A\<newline>'', js ''\<newline>''])))"
  using C3_markdown_cells_not_blank [of "markdown_cell [js ''# A\<newline>'', js ''\<newline>'']" "js ''# A''"]
  by (simp add: eval_defs)

lemma buf_of_end: "buf_of p = [] \<or> last (buf_of p) = nl"
  by (cases p rule: rev_cases) simp_all

subsection \<open>Lines and cells\<close>

lemma with_nl_append [simp]: "with_nl (a @ b) = with_nl a @ with_nl b"
  by (simp add: with_nl_def)

lemma with_nl_Nil [simp]: "with_nl [] = []"
  by (simp add: with_nl_def)

lemma with_nl_Cons [simp]: "with_nl (l # ls) = (l @ [nl]) # with_nl ls"
  by (simp add: with_nl_def)

subsection \<open>The pending lines\<close>

lemma pending_lines_buf_of:
  "currentCell s = buf_of p \<Longrightarrow> \<forall>l\<in>set p. nl \<notin> set l \<Longrightarrow> pending_lines s = p"
  by (simp add: pending_lines_def split_nl_buf_of)

lemma flush_lines:
  assumes cur: "currentCell s = buf_of p" and nlp: "\<forall>l\<in>set p. nl \<notin> set l"
  shows "flush s = (if list_all blank p then s
                    else s\<lparr>cells := cells s @ [markdown_cell (with_nl p @ [[nl]])],
                           currentCell := []\<rparr>)"
  using flush_buf_of [OF cur nlp] by (simp add: list_all_iff)

lemma close_cell_lines:
  assumes "\<forall>l\<in>set p. nl \<notin> set l"
  shows "close_cell lang (buf_of p) =
     (if lang = js ''python'' then code_cell (with_nl p @ [[nl]])
      else markdown_cell ([fence @ lang @ [nl]] @ with_nl p @ [[nl]] @ [fence @ [nl]]))"
  using assms by (simp add: close_cell_def mk_source_buf_of)

lemma step_pending_lines:
  assumes cur: "currentCell s = buf_of p" and nlp: "\<forall>l\<in>set p. nl \<notin> set l"
  shows "currentCell (step s line) = buf_of
     (if starts_with fence line
      then (if inCodeBlock s then [] else if list_all blank p then p else [])
      else if \<not> inCodeBlock s \<and> starts_with [hash] line then [line] else p @ [line])"
proof (cases rule: step_cases [of line s])
  case fence_open
  then show ?thesis using cur by (simp add: step_open flush_lines [OF cur nlp])
next
  case fence_close
  then show ?thesis by (simp add: step_close)
next
  case header_line
  then show ?thesis by (simp add: step_header)
next
  case plain_line
  then show ?thesis using cur by (auto simp add: step_plain)
qed

lemma step_cells_lines:
  assumes cur: "currentCell s = buf_of p" and nlp: "\<forall>l\<in>set p. nl \<notin> set l"
  shows "cells (step s line) = cells s @
     (if starts_with fence line \<and> inCodeBlock s
      then [close_cell (codeBlockLang s) (buf_of p)]
      else if (starts_with fence line \<or> starts_with [hash] line) \<and> \<not> inCodeBlock s \<and>
              \<not> list_all blank p
      then [markdown_cell (with_nl p @ [[nl]])]
      else [])"
proof (cases rule: step_cases [of line s])
  case fence_open
  then show ?thesis by (simp add: step_open flush_lines [OF cur nlp])
next
  case fence_close
  then show ?thesis using cur by (simp add: step_close)
next
  case header_line
  then show ?thesis by (simp add: step_header flush_lines [OF cur nlp])
next
  case plain_line
  then show ?thesis by (auto simp add: step_plain)
qed

lemma reach_lines:
  assumes "\<forall>l\<in>set ls. nl \<notin> set l"
  shows "\<exists>p. currentCell (run init ls) = buf_of p \<and> (\<forall>l\<in>set p. nl \<notin> set l) \<and>
           (\<forall>l\<in>set p. \<not> starts_with fence l) \<and>
           suffix p (filter (\<lambda>l. \<not> starts_with fence l) ls)"
  using assms
proof (induction ls rule: rev_induct)
  case Nil
  have "currentCell (run init []) = buf_of []" by (simp add: init_def)
  then show ?case by (intro exI [of _ "[]"]) simp
next
  case (snoc line ls)
  obtain p where cur: "currentCell (run init ls) = buf_of p"
    and nlp: "\<forall>l\<in>set p. nl \<notin> set l"
    and nf: "\<forall>l\<in>set p. \<not> starts_with fence l"
    and suf: "suffix p (filter (\<lambda>l. \<not> starts_with fence l) ls)"
    using snoc by auto
  define q where "q = (if starts_with fence line
      then (if inCodeBlock (run init ls) then [] else if list_all blank p then p else [])
      else if \<not> inCodeBlock (run init ls) \<and> starts_with [hash] line then [line]
      else p @ [line])"
  have st: "run init (ls @ [line]) = step (run init ls) line"
    by (simp add: run_append)
  have c: "currentCell (run init (ls @ [line])) = buf_of q"
    unfolding st q_def by (rule step_pending_lines [OF cur nlp])
  have n: "\<forall>l\<in>set q. nl \<notin> set l"
    using nlp snoc.prems by (auto simp add: q_def)
  have f: "\<forall>l\<in>set q. \<not> starts_with fence l"
    using nf by (auto simp add: q_def)
  have u: "suffix q (filter (\<lambda>l. \<not> starts_with fence l) (ls @ [line]))"
    using suf by (auto simp add: q_def suffix_def)
  show ?case using c n f u by blast
qed

text \<open>
  C4, as stated, fails: a document that ends inside a python fence with the body \<open>x\<close>
  yields one markdown cell holding the body line and a \<open>"\n"\<close> element; the opening
  fence line is not in its content.
\<close>

theorem C4_unterminated_fence_output:
  "splitIntoNotebookCells (js ''```python\<newline>x'') = [markdown_cell [js ''x\<newline>'', js ''\<newline>'']]
   \<and> fence @ js ''python'' @ [nl] \<notin> set (source (markdown_cell [js ''x\<newline>'', js ''\<newline>'']))"
  by (simp add: eval_defs)

text \<open>
  C4, as amended.  When the document ends inside a fence, the function returns, and the
  only push after the opening line is the last \<open>if (currentCell.trim())\<close>.  Let \<open>pend\<close> be
  the lines held in the buffer right after the flush at the opening line: they are all
  whitespace-only (there are none when the buffer was pushed there).  If every body
  line is whitespace-only, nothing is pushed.  Otherwise one markdown cell is pushed,
  whose content is exactly the lines \<open>pend\<close>, then the body lines, each with its newline,
  then the one \<open>"\n"\<close> element that the split of the buffer adds.  No element of that
  content begins with three backticks: there is neither an opening fence line nor a
  closing one.
\<close>

theorem C4_unterminated_fence:
  assumes doc: "split_nl md = ps @ [open_line] @ body"
    and out: "\<not> inCodeBlock (run init ps)"
    and op: "starts_with fence open_line"
    and bd: "\<forall>l\<in>set body. \<not> starts_with fence l"
  shows "let pend = pending_lines (flush (run init ps)) in
    currentCell (flush (run init ps)) = buf_of pend \<and>
    list_all blank pend \<and>
    list_all (\<lambda>l. \<not> starts_with fence l) (with_nl (pend @ body) @ [[nl]]) \<and>
    splitIntoNotebookCells md = cells (flush (run init ps)) @
      (if list_all blank body then []
       else [markdown_cell (with_nl (pend @ body) @ [[nl]])])"
proof -
  define s0 where "s0 = run init ps"
  define s1 where "s1 = step s0 open_line"
  define s2 where "s2 = run s1 body"
  have free: "\<forall>l\<in>set (ps @ [open_line] @ body). nl \<notin> set l"
    using split_nl_nl_free [of _ md] by (simp only: doc) blast
  obtain p where p: "currentCell s0 = buf_of p" "\<forall>l\<in>set p. nl \<notin> set l"
    using run_pending [of init "[]" ps] free by (auto simp add: s0_def init_def)
  define pend where "pend = (if list_all blank p then p else [])"
  have pend: "list_all blank pend" "\<forall>l\<in>set pend. nl \<notin> set l"
    using p by (simp_all add: pend_def)
  have fl: "currentCell (flush s0) = buf_of pend"
    using p by (simp add: flush_lines pend_def)
  have pl: "pending_lines (flush s0) = pend"
    using fl pend(2) by (rule pending_lines_buf_of)
  have s1: "s1 = (flush s0)\<lparr>codeBlockLang := trim (drop 3 open_line), inCodeBlock := True\<rparr>"
    using op out by (simp add: s1_def s0_def step_open)
  have s2: "s2 = s1\<lparr>currentCell := currentCell s1 @ buf_of body\<rparr>"
    unfolding s2_def using bd by (intro run_body) (simp_all add: s1)
  have cur2: "currentCell s2 = buf_of (pend @ body)"
    by (simp add: s2 s1 fl)
  have cells2: "cells s2 = cells (flush s0)"
    by (simp add: s2 s1)
  have free2: "\<forall>l\<in>set (pend @ body). nl \<notin> set l"
    using pend free by auto
  have bl: "list_all blank (pend @ body) = list_all blank body"
    using pend by simp
  have nf1: "\<forall>l\<in>set (pend @ body). \<not> starts_with fence l"
    using pend(1) bd blank_not_fence by (auto simp add: list_all_iff)
  have nf2: "\<not> starts_with fence [nl]"
    using blank_not_fence [of "[nl]"] by simp
  have nofence: "list_all (\<lambda>l. \<not> starts_with fence l) (with_nl (pend @ body) @ [[nl]])"
    using nf1 nf2 by (auto simp add: list_all_iff with_nl_def)
  have "run init (split_nl md) = s2"
    by (simp add: doc run_append s0_def s1_def s2_def)
  then have "splitIntoNotebookCells md = cells (flush s2)"
    by (simp add: splitIntoNotebookCells_def)
  also have "\<dots> = cells (flush s0) @
      (if list_all blank body then [] else [markdown_cell (with_nl (pend @ body) @ [[nl]])])"
    using flush_lines [OF cur2 free2] by (simp only: bl) (simp add: cells2)
  finally show ?thesis
    unfolding Let_def s0_def [symmetric] pl using fl pend(1) nofence by simp
qed

theorem C4_unterminated_fence_witness:
  "pending_lines (flush (run init [[]])) = [[]] \<and>
   splitIntoNotebookCells (js ''\<newline>```python\<newline>x'') =
     [markdown_cell [js ''\<newline>'', js ''x\<newline>'', js ''\<newline>'']]"
  using C4_unterminated_fence [of "js ''\<newline>```python\<newline>x''" "[[]]" "js ''```python''" "[js ''x'']"]
  by (simp add: eval_defs pending_lines_def Let_def)


text \<open>
  C8, as stated, fails twice.  When a fence with an empty body closes, the buffer is
  empty, so it does not end with a newline (the split of the empty string still gives
  one empty piece, hence the content \<open>["\n"]\<close>).  And the content of a demoted fence
  ends with the closing fence line, not with the \<open>"\n"\<close> element.
\<close>

theorem C8_empty_buffer_at_close:
  "currentCell (run init (split_nl (js ''```python''))) = [] \<and>
   inCodeBlock (run init (split_nl (js ''```python''))) \<and>
   cells (step (run init (split_nl (js ''```python''))) (js ''```'')) = [code_cell [js ''\<newline>'']] \<and>
   splitIntoNotebookCells (js ''```bash\<newline>echo hi\<newline>```'') =
     [markdown_cell [js ''```bash\<newline>'', js ''echo hi\<newline>'', js ''\<newline>'', js ''```\<newline>'']] \<and>
   last [js ''```bash\<newline>'', js ''echo hi\<newline>'', js ''\<newline>'', js ''```\<newline>''] \<noteq> js ''\<newline>''"
  by (simp add: eval_defs)

text \<open>
  C8, as amended.  After any number \<open>n\<close> of iterations, let \<open>p\<close> be the lines held in the
  buffer.  The buffer is exactly these lines, each followed by a newline, and they are
  the last of the source lines read so far that do not begin with three backticks, in
  source order.  So the buffer is empty or ends with a newline, and its split is \<open>p\<close>
  followed by one empty string.  Whatever the next line is, the iteration pushes at most
  one cell: at a closing fence, a code cell with the content \<open>p\<close> with newlines and one
  more \<open>"\n"\<close> element when the language is python, and otherwise a markdown cell with
  that same sequence between the rebuilt opening fence line and the closing fence line;
  at an opening fence or a header, when \<open>p\<close> is not all whitespace-only, a markdown cell
  with the content \<open>p\<close> with newlines and one more \<open>"\n"\<close> element.  The push after the
  loop is of this last form too.
\<close>

theorem C8_buffer_lines_and_extra_newline:
  "let s = run init (take n (split_nl md)); p = pending_lines s in
     currentCell s = buf_of p \<and>
     suffix p (filter (\<lambda>l. \<not> starts_with fence l) (take n (split_nl md))) \<and>
     (currentCell s = [] \<or> last (currentCell s) = nl) \<and>
     split_nl (currentCell s) = p @ [[]] \<and>
     cells (step s line) = cells s @
       (if starts_with fence line \<and> inCodeBlock s
        then [if codeBlockLang s = js ''python''
              then code_cell (with_nl p @ [[nl]])
              else markdown_cell
                ([fence @ codeBlockLang s @ [nl]] @ with_nl p @ [[nl]] @ [fence @ [nl]])]
        else if (starts_with fence line \<or> starts_with [hash] line) \<and> \<not> inCodeBlock s \<and>
                \<not> list_all blank p
        then [markdown_cell (with_nl p @ [[nl]])]
        else []) \<and>
     cells (flush s) = cells s @
       (if list_all blank p then [] else [markdown_cell (with_nl p @ [[nl]])])"
proof -
  define s where "s = run init (take n (split_nl md))"
  have "\<forall>l\<in>set (take n (split_nl md)). nl \<notin> set l"
    using split_nl_nl_free in_set_takeD by fast
  then obtain p where cur: "currentCell s = buf_of p"
    and nlp: "\<forall>l\<in>set p. nl \<notin> set l"
    and suf: "suffix p (filter (\<lambda>l. \<not> starts_with fence l) (take n (split_nl md)))"
    using reach_lines [of "take n (split_nl md)"] unfolding s_def by blast
  have pl: "pending_lines s = p"
    using cur nlp by (rule pending_lines_buf_of)
  have e: "currentCell s = [] \<or> last (currentCell s) = nl"
    using buf_of_end [of p] by (simp add: cur)
  have sp: "split_nl (currentCell s) = p @ [[]]"
    using nlp by (simp add: cur split_nl_buf_of)
  have st: "cells (step s line) = cells s @
       (if starts_with fence line \<and> inCodeBlock s
        then [if codeBlockLang s = js ''python''
              then code_cell (with_nl p @ [[nl]])
              else markdown_cell
                ([fence @ codeBlockLang s @ [nl]] @ with_nl p @ [[nl]] @ [fence @ [nl]])]
        else if (starts_with fence line \<or> starts_with [hash] line) \<and> \<not> inCodeBlock s \<and>
                \<not> list_all blank p
        then [markdown_cell (with_nl p @ [[nl]])]
        else [])"
    unfolding step_cells_lines [OF cur nlp] close_cell_lines [OF nlp] by simp
  have fl: "cells (flush s) = cells s @
       (if list_all blank p then [] else [markdown_cell (with_nl p @ [[nl]])])"
    by (simp add: flush_lines [OF cur nlp])
  show ?thesis
    unfolding Let_def s_def [symmetric] pl using cur suf e sp st fl by blast
qed

theorem C8_buffer_lines_witness:
  "pending_lines (run init (take 2 (split_nl (js ''```bash\<newline>echo hi\<newline>```'')))) = [js ''echo hi''] \<and>
   currentCell (run init (take 2 (split_nl (js ''```bash\<newline>echo hi\<newline>```'')))) = js ''echo hi\<newline>'' \<and>
   cells (step (run init (take 2 (split_nl (js ''```bash\<newline>echo hi\<newline>```'')))) (js ''```'')) =
     [markdown_cell [js ''```bash\<newline>'', js ''echo hi\<newline>'', js ''\<newline>'', js ''```\<newline>'']]"
  using C8_buffer_lines_and_extra_newline [of 2 "js ''```bash\<newline>echo hi\<newline>```''" "js ''```''"]
  by (simp add: eval_defs pending_lines_def Let_def)


subsection \<open>The source lines in the cells\<close>

lemma not_fence_nl_only [simp]: "\<not> starts_with fence [nl]"
  using blank_not_fence [of "[nl]"] by simp

lemma starts_with_fence_append [simp]: "starts_with fence (fence @ x)"
  by (simp add: starts_with_def)

lemma butlast_with_nl_extra [simp]: "butlast (with_nl p @ [[nl]]) = with_nl p"
  by (simp add: butlast_append)

lemma cell_lines_flushed:
  assumes "\<forall>l\<in>set p. \<not> starts_with fence l"
  shows "cell_lines (markdown_cell (with_nl p @ [[nl]])) = with_nl p"
proof (cases p)
  case Nil
  then show ?thesis by (simp add: cell_lines_def markdown_cell_def)
next
  case (Cons a q)
  then have "\<not> starts_with fence a" using assms by simp
  then show ?thesis using Cons
    by (simp add: cell_lines_def markdown_cell_def butlast_append)
qed

lemma cell_lines_code:
  assumes "\<forall>l\<in>set p. \<not> starts_with fence l"
  shows "cell_lines (code_cell (with_nl p @ [[nl]])) = with_nl p"
  by (cases p) (simp_all add: cell_lines_def code_cell_def butlast_append)

lemma cell_lines_demoted:
  "cell_lines (markdown_cell ([fence @ lang @ [nl]] @ with_nl p @ [[nl]] @ [fence @ [nl]]))
     = with_nl p"
  by (simp add: cell_lines_def markdown_cell_def butlast_append)

lemma cell_lines_close:
  assumes "\<forall>l\<in>set p. nl \<notin> set l" and "\<forall>l\<in>set p. \<not> starts_with fence l"
  shows "cell_lines (close_cell lang (buf_of p)) = with_nl p"
  using assms cell_lines_code [of p] cell_lines_demoted [of lang p]
  by (simp add: close_cell_lines)

lemma run_retained:
  assumes "\<forall>l\<in>set ls. nl \<notin> set l"
    and "currentCell s = buf_of p"
    and "\<forall>l\<in>set p. nl \<notin> set l"
    and "\<forall>l\<in>set p. \<not> starts_with fence l"
  shows "concat (map cell_lines (cells (flush (run s ls)))) =
         concat (map cell_lines (cells s)) @ with_nl (retained_lines (inCodeBlock s) p ls)"
  using assms
proof (induction ls arbitrary: s p)
  case Nil
  show ?case
    using flush_lines [OF Nil(2) Nil(3)] cell_lines_flushed [OF Nil(4)] by simp
next
  case (Cons l ls)
  note cur = Cons.prems(2) and nlp = Cons.prems(3) and nf = Cons.prems(4)
  have free: "\<forall>l\<in>set ls. nl \<notin> set l" and nll: "nl \<notin> set l"
    using Cons.prems(1) by simp_all
  show ?case
  proof (cases rule: step_cases [of l s])
    case fence_open
    show ?thesis
    proof (cases "list_all blank p")
      case True
      have st: "step s l = s\<lparr>codeBlockLang := trim (drop 3 l), inCodeBlock := True\<rparr>"
        using fence_open True by (simp add: step_open flush_lines [OF cur nlp])
      have "concat (map cell_lines (cells (flush (run (step s l) ls)))) =
          concat (map cell_lines (cells (step s l))) @
          with_nl (retained_lines (inCodeBlock (step s l)) p ls)"
        using free nlp nf cur by (intro Cons.IH) (simp_all add: st)
      then show ?thesis using fence_open True by (simp add: st)
    next
      case False
      have st: "step s l = s\<lparr>cells := cells s @ [markdown_cell (with_nl p @ [[nl]])],
          currentCell := [], codeBlockLang := trim (drop 3 l), inCodeBlock := True\<rparr>"
        using fence_open False by (simp add: step_open flush_lines [OF cur nlp])
      have "concat (map cell_lines (cells (flush (run (step s l) ls)))) =
          concat (map cell_lines (cells (step s l))) @
          with_nl (retained_lines (inCodeBlock (step s l)) [] ls)"
        using free by (intro Cons.IH) (simp_all add: st)
      then show ?thesis using fence_open False cell_lines_flushed [OF nf] by (simp add: st)
    qed
  next
    case fence_close
    have st: "step s l = s\<lparr>inCodeBlock := False,
        cells := cells s @ [close_cell (codeBlockLang s) (buf_of p)], currentCell := []\<rparr>"
      using fence_close cur by (simp add: step_close)
    have "concat (map cell_lines (cells (flush (run (step s l) ls)))) =
        concat (map cell_lines (cells (step s l))) @
        with_nl (retained_lines (inCodeBlock (step s l)) [] ls)"
      using free by (intro Cons.IH) (simp_all add: st)
    then show ?thesis using fence_close cell_lines_close [OF nlp nf] by (simp add: st)
  next
    case header_line
    have cur1: "currentCell (step s l) = buf_of [l]"
      using header_line by (simp add: step_header)
    have ih: "concat (map cell_lines (cells (flush (run (step s l) ls)))) =
        concat (map cell_lines (cells (step s l))) @
        with_nl (retained_lines (inCodeBlock (step s l)) [l] ls)"
      using free nll header_line(1) cur1 by (intro Cons.IH) simp_all
    have c1: "cells (step s l) = cells s @
        (if list_all blank p then [] else [markdown_cell (with_nl p @ [[nl]])])"
      using header_line by (simp add: step_header flush_lines [OF cur nlp])
    have m1: "inCodeBlock (step s l) = False"
      using header_line by (simp add: step_header)
    show ?thesis
      using header_line ih cell_lines_flushed [OF nf] by (simp add: c1 m1)
  next
    case plain_line
    have st: "step s l = s\<lparr>currentCell := buf_of (p @ [l])\<rparr>"
      using plain_line cur by (simp add: step_plain)
    have "concat (map cell_lines (cells (flush (run (step s l) ls)))) =
        concat (map cell_lines (cells (step s l))) @
        with_nl (retained_lines (inCodeBlock (step s l)) (p @ [l]) ls)"
      using free nlp nf nll plain_line(1) by (intro Cons.IH) (simp_all add: st)
    then show ?thesis using plain_line by (auto simp add: st)
  qed
qed

lemma hash_line_not_blank: "starts_with [hash] l \<Longrightarrow> \<not> blank l"
  by (cases l) (simp_all add: starts_with_def)

lemma filter_not_blank_all: "list_all blank p \<Longrightarrow> filter (\<lambda>l. \<not> blank l) p = []"
  by (induction p) simp_all

lemma retained_not_blank:
  "filter (\<lambda>l. \<not> blank l) (retained_lines inside pend ls) =
   filter (\<lambda>l. \<not> blank l) pend @ filter (\<lambda>l. \<not> blank l \<and> \<not> starts_with fence l) ls"
  by (induction inside pend ls rule: retained_lines.induct)
    (auto simp add: filter_not_blank_all hash_line_not_blank)

lemma retained_subseq:
  "subseq (retained_lines inside pend ls) (pend @ filter (\<lambda>l. \<not> starts_with fence l) ls)"
proof (induction inside pend ls rule: retained_lines.induct)
  case (1 inside pend)
  then show ?case by simp
next
  case (2 inside pend l ls)
  show ?case
  proof (cases "starts_with fence l")
    case True
    have keep: "\<And>r. subseq r (filter (\<lambda>l. \<not> starts_with fence l) ls) \<Longrightarrow>
        subseq (pend @ r) (pend @ filter (\<lambda>l. \<not> starts_with fence l) ls)"
      by (rule list_emb_append_mono) simp_all
    show ?thesis
    proof (cases inside)
      case inside: True
      have "subseq (retained_lines False [] ls) (filter (\<lambda>l. \<not> starts_with fence l) ls)"
        using 2(1) True inside by simp
      then show ?thesis using True inside keep by simp
    next
      case outside: False
      show ?thesis
      proof (cases "list_all blank pend")
        case True
        then show ?thesis using 2(2) \<open>starts_with fence l\<close> outside by simp
      next
        case False
        have "subseq (retained_lines True [] ls) (filter (\<lambda>l. \<not> starts_with fence l) ls)"
          using 2(3) \<open>starts_with fence l\<close> outside False by simp
        then show ?thesis using \<open>starts_with fence l\<close> outside False keep by simp
      qed
    qed
  next
    case False
    show ?thesis
    proof (cases "\<not> inside \<and> starts_with [hash] l")
      case True
      have "subseq (retained_lines False [l] ls) ([l] @ filter (\<lambda>l. \<not> starts_with fence l) ls)"
        using 2(4) False True by simp
      moreover have "subseq (if list_all blank pend then [] else pend) pend"
        by simp
      ultimately have "subseq ((if list_all blank pend then [] else pend) @ retained_lines False [l] ls)
          (pend @ [l] @ filter (\<lambda>l. \<not> starts_with fence l) ls)"
        by (rule list_emb_append_mono [rotated])
      then show ?thesis using False True by simp
    next
      case plain: False
      have "subseq (retained_lines inside (pend @ [l]) ls)
          ((pend @ [l]) @ filter (\<lambda>l. \<not> starts_with fence l) ls)"
        using 2(5) False plain by simp
      then show ?thesis using False plain by auto
    qed
  qed
qed

text \<open>
  C7, as stated, fails: a line holding one space before a header is a source line that
  is no fence delimiter, and it is in no cell of the result (the buffer that holds it
  trims to the empty string, is not pushed, and is overwritten by the header).
\<close>

theorem C7_blank_line_dropped:
  "split_nl (js '' \<newline># A'') = [js '' '', js ''# A''] \<and>
   splitIntoNotebookCells (js '' \<newline># A'') = [markdown_cell [js ''# A\<newline>'', js ''\<newline>'']] \<and>
   js '' \<newline>'' \<notin> set (content [markdown_cell [js ''# A\<newline>'', js ''\<newline>'']])"
  by (simp add: eval_defs content_def)

text \<open>
  C7, as amended.  Take from every cell the content lines that come from the buffer
  lines (\<open>cell_lines\<close>).  Their concatenation in output order is exactly the sequence
  \<open>retained_lines\<close> of source lines, each with its newline: the source lines that do not
  begin with three backticks, in source order, each once, without the lines pending
  as an all-whitespace buffer when a header line is met outside a fence or when the
  input ends.  The retained lines are a subsequence of the source lines that do not
  begin with three backticks, and no line with a non-whitespace code unit is missing.
\<close>

theorem C7_source_lines_in_order:
  "concat (map cell_lines (splitIntoNotebookCells md)) =
     with_nl (retained_lines False [] (split_nl md)) \<and>
   subseq (retained_lines False [] (split_nl md))
     (filter (\<lambda>l. \<not> starts_with fence l) (split_nl md)) \<and>
   filter (\<lambda>l. \<not> blank l) (retained_lines False [] (split_nl md)) =
     filter (\<lambda>l. \<not> blank l \<and> \<not> starts_with fence l) (split_nl md)"
proof -
  have "\<forall>l\<in>set (split_nl md). nl \<notin> set l"
    using split_nl_nl_free by blast
  then have "concat (map cell_lines (cells (flush (run init (split_nl md))))) =
     concat (map cell_lines (cells init)) @
     with_nl (retained_lines (inCodeBlock init) [] (split_nl md))"
    by (intro run_retained) (simp_all add: init_def)
  then have "concat (map cell_lines (splitIntoNotebookCells md)) =
     with_nl (retained_lines False [] (split_nl md))"
    by (simp add: splitIntoNotebookCells_def init_def)
  then show ?thesis
    using retained_subseq [of False "[]" "split_nl md"]
      retained_not_blank [of False "[]" "split_nl md"] by simp
qed

end
